theory Spec2Isabelle
  imports Complex_Main
begin

section \<open>Python strings\<close>

text \<open>
  A Python \<open>str\<close> is a sequence of Unicode code points: \<open>len\<close>, indexing, \<open>in\<close> and the
  \<open>re\<close> module all count code points, so a string is a list of code points here.
  The source needs three code points beyond ASCII: the pound sign, the euro sign and
  the letter e with acute accent in one keyword of the section table.
\<close>

type_synonym codepoint = nat
type_synonym pystr = "codepoint list"

definition ascii :: "string \<Rightarrow> pystr" where
  "ascii s = map of_char s"

definition POUND :: codepoint where "POUND = 163"
definition EURO :: codepoint where "EURO = 8364"
definition E_ACUTE :: codepoint where "E_ACUTE = 233"
definition LONG_S :: codepoint where "LONG_S = 383"

text \<open>
  What CPython's Unicode database says about the code points beyond ASCII is not part of
  the repository; it is a parameter. \<open>ucd_lower\<close> is \<open>str.lower\<close> on a string that holds a
  code point beyond ASCII (the case tables and the final-sigma rule), \<open>ucd_isalpha\<close> is
  \<open>str.isalpha\<close> on one code point, \<open>ucd_decimal\<close> is the value of a decimal digit
  (category Nd, what \<open>\d\<close> matches and \<open>float\<close> reads), \<open>ucd_isspace\<close> is what \<open>\s\<close>
  matches. The pound and the euro sign are currency symbols (category Sc): no letters,
  no digits, no white space, and without case; the model says so itself.
\<close>

record ucd =
  ucd_lower :: "pystr \<Rightarrow> pystr"
  ucd_isalpha :: "codepoint \<Rightarrow> bool"
  ucd_decimal :: "codepoint \<Rightarrow> nat option"
  ucd_isspace :: "codepoint \<Rightarrow> bool"

definition is_currency_sign :: "codepoint \<Rightarrow> bool" where
  "is_currency_sign c = (c = POUND \<or> c = EURO)"

definition lower_char :: "codepoint \<Rightarrow> codepoint" where
  "lower_char c = (if 65 \<le> c \<and> c \<le> 90 then c + 32 else c)"

definition lower :: "ucd \<Rightarrow> pystr \<Rightarrow> pystr" where
  "lower U s =
     (if list_all (\<lambda>c. c < 128 \<or> is_currency_sign c) s then map lower_char s
      else ucd_lower U s)"

definition isalpha :: "ucd \<Rightarrow> codepoint \<Rightarrow> bool" where
  "isalpha U c =
     (if c < 128 then (65 \<le> c \<and> c \<le> 90) \<or> (97 \<le> c \<and> c \<le> 122)
      else if is_currency_sign c then False
      else ucd_isalpha U c)"

definition decimal :: "ucd \<Rightarrow> codepoint \<Rightarrow> nat option" where
  "decimal U c =
     (if c < 128 then (if 48 \<le> c \<and> c \<le> 57 then Some (c - 48) else None)
      else if is_currency_sign c then None
      else ucd_decimal U c)"

definition isdigit :: "ucd \<Rightarrow> codepoint \<Rightarrow> bool" where
  "isdigit U c = (decimal U c \<noteq> None)"

definition isspace :: "ucd \<Rightarrow> codepoint \<Rightarrow> bool" where
  "isspace U c =
     (if c < 128 then (9 \<le> c \<and> c \<le> 13) \<or> (28 \<le> c \<and> c \<le> 32)
      else if is_currency_sign c then False
      else ucd_isspace U c)"

text \<open>The database that knows no letter, digit or space beyond ASCII, for examples.\<close>

definition ascii_ucd :: ucd where
  "ascii_ucd = \<lparr>ucd_lower = (\<lambda>s. s), ucd_isalpha = (\<lambda>c. False),
                ucd_decimal = (\<lambda>c. None), ucd_isspace = (\<lambda>c. False)\<rparr>"

text \<open>\<open>sub in s\<close>: \<open>sub\<close> occurs in \<open>s\<close> as a contiguous run.\<close>

fun startswith :: "pystr \<Rightarrow> pystr \<Rightarrow> bool" where
  "startswith s [] = True"
| "startswith [] (p # ps) = False"
| "startswith (c # cs) (p # ps) = (c = p \<and> startswith cs ps)"

fun contains :: "pystr \<Rightarrow> pystr \<Rightarrow> bool" where
  "contains sub [] = (sub = [])"
| "contains sub (c # cs) = (startswith (c # cs) sub \<or> contains sub cs)"

text \<open>\<open>sep.join(xs)\<close> and \<open>s.replace(',', '.')\<close>.\<close>

fun join :: "pystr \<Rightarrow> pystr list \<Rightarrow> pystr" where
  "join sep [] = []"
| "join sep [x] = x"
| "join sep (x # y # ys) = x @ sep @ join sep (y # ys)"

definition replace_comma :: "pystr \<Rightarrow> pystr" where
  "replace_comma s = map (\<lambda>c. if c = 44 then 46 else c) s"

section \<open>The regular expressions of the price patterns\<close>

text \<open>
  The four patterns use a literal character, a character class, sequencing, a greedy
  star on a class and a greedy optional group. \<open>rmatch r s\<close> lists what is left of \<open>s\<close>
  after each way \<open>r\<close> can match a prefix of it, in the order in which the backtracking
  matcher of \<open>re\<close> tries them (greedy: the longest first), so that the head of the list
  is the match \<open>re\<close> reports.
\<close>

datatype regex =
    Eps
  | Sym "codepoint \<Rightarrow> bool"
  | Cat regex regex
  | Star "codepoint \<Rightarrow> bool"
  | Opt regex

fun star_match :: "(codepoint \<Rightarrow> bool) \<Rightarrow> pystr \<Rightarrow> pystr list" where
  "star_match p [] = [[]]"
| "star_match p (c # cs) = (if p c then star_match p cs @ [c # cs] else [c # cs])"

fun rmatch :: "regex \<Rightarrow> pystr \<Rightarrow> pystr list" where
  "rmatch Eps s = [s]"
| "rmatch (Sym p) s = (case s of [] \<Rightarrow> [] | c # cs \<Rightarrow> if p c then [cs] else [])"
| "rmatch (Cat a b) s = concat (map (rmatch b) (rmatch a s))"
| "rmatch (Star p) s = star_match p s"
| "rmatch (Opt a) s = rmatch a s @ [s]"

text \<open>
  Every pattern is \<open>pre (grp) post\<close> with one capturing group. \<open>match_at\<close> is \<open>re\<close>'s match
  anchored at the start of \<open>s\<close>: the lengths of \<open>pre\<close>, of group 1 and of \<open>post\<close> in
  the first successful way.
\<close>

record pattern =
  pre :: regex
  grp :: regex
  post :: regex

definition match_at :: "pattern \<Rightarrow> pystr \<Rightarrow> (nat \<times> nat \<times> nat) option" where
  "match_at pat s =
     (case concat (map (\<lambda>r1. concat (map (\<lambda>r2. map (\<lambda>r3. (r1, r2, r3)) (rmatch (post pat) r2))
                                          (rmatch (grp pat) r1)))
                       (rmatch (pre pat) s)) of
        [] \<Rightarrow> None
      | (r1, r2, r3) # _ \<Rightarrow>
          Some (length s - length r1, length r1 - length r2, length r2 - length r3))"

text \<open>
  One match of \<open>re.finditer\<close>: \<open>m.start()\<close>, \<open>m.group(0)\<close> and \<open>m.group(1)\<close>.
\<close>

record rematch =
  m_start :: nat
  group0 :: pystr
  group1 :: pystr

text \<open>
  \<open>re.finditer\<close> scans from the left; after a match it goes on where the match ended
  (one further when the match was empty), after a failure one code point to the right,
  and it stops behind the end of the text.
\<close>

function finditer_from :: "pattern \<Rightarrow> nat \<Rightarrow> pystr \<Rightarrow> rematch list" where
  "finditer_from pat pos s =
     (case match_at pat s of
        None \<Rightarrow> (if s = [] then [] else finditer_from pat (pos + 1) (drop 1 s))
      | Some (a, b, c) \<Rightarrow>
          \<lparr>m_start = pos, group0 = take (a + b + c) s, group1 = take b (drop a s)\<rparr>
            # (if s = [] then []
               else finditer_from pat (pos + max 1 (a + b + c)) (drop (max 1 (a + b + c)) s)))"
  by pat_completeness auto
termination
  by (relation "measure (\<lambda>(pat, pos, s). length s)") auto

declare finditer_from.simps [simp del]

definition finditer :: "pattern \<Rightarrow> pystr \<Rightarrow> rematch list" where
  "finditer pat s = finditer_from pat 0 s"

section \<open>Exceptions\<close>

text \<open>
  \<open>Error\<close> is an exception raised by a collaborator (OpenCV, the recognition engine,
  the storage client) with its message.
\<close>

datatype exc = ValueError | ZeroDivisionError | Error string

section \<open>Price extraction\<close>

datatype currency = USD | EUR | GBP

record price =
  price_value :: rat
  price_currency :: currency
  price_raw :: pystr
  price_position :: nat

text \<open>
  \<open>float(s)\<close> on digits with at most one point. A binary64 float is modelled by the
  decimal it was read from, as an exact rational. \<open>float\<close> reads more than this (signs,
  exponents, \<open>inf\<close>); the model raises \<open>ValueError\<close> on everything else, and
  \<open>extract_prices_returns\<close> below shows that no match of a price pattern gets there.
\<close>

fun digits_value :: "ucd \<Rightarrow> nat \<Rightarrow> pystr \<Rightarrow> nat option" where
  "digits_value U acc [] = Some acc"
| "digits_value U acc (c # cs) =
     (case decimal U c of None \<Rightarrow> None | Some d \<Rightarrow> digits_value U (10 * acc + d) cs)"

definition float :: "ucd \<Rightarrow> pystr \<Rightarrow> exc + rat" where
  "float U s =
     (let ip = takeWhile (\<lambda>c. c \<noteq> 46) s; rest = dropWhile (\<lambda>c. c \<noteq> 46) s
      in case rest of
           [] \<Rightarrow> (if ip = [] then Inl ValueError
                  else case digits_value U 0 ip of
                         None \<Rightarrow> Inl ValueError
                       | Some i \<Rightarrow> Inr (of_nat i))
         | _ # fp \<Rightarrow>
             (if ip = [] \<and> fp = [] then Inl ValueError
              else case (digits_value U 0 ip, digits_value U 0 fp) of
                     (Some i, Some f) \<Rightarrow> Inr (of_nat i + of_nat f / 10 ^ length fp)
                   | _ \<Rightarrow> Inl ValueError))"

text \<open>
  \<open>\d+(?:\.\d{2})?\<close>, with the class of the separator as a parameter (the euro pattern
  has \<open>[.,]\<close>).
\<close>

definition amount :: "ucd \<Rightarrow> (codepoint \<Rightarrow> bool) \<Rightarrow> regex" where
  "amount U sep =
     Cat (Cat (Sym (isdigit U)) (Star (isdigit U)))
         (Opt (Cat (Sym sep) (Cat (Sym (isdigit U)) (Sym (isdigit U)))))"

text \<open>
  The patterns are compiled with \<open>re.IGNORECASE\<close>: \<open>U\<close>, \<open>S\<close> and \<open>D\<close> match either case,
  and \<open>S\<close> also the long s, its one further case variant in \<open>re\<close>. The three currency
  signs have no case.
\<close>

definition price_patterns :: "ucd \<Rightarrow> pattern list" where
  "price_patterns U =
     [\<lparr>pre = Cat (Sym (\<lambda>c. c = 36)) (Star (isspace U)),
       grp = amount U (\<lambda>c. c = 46), post = Eps\<rparr>,
      \<lparr>pre = Eps, grp = amount U (\<lambda>c. c = 46),
       post = Cat (Star (isspace U))
                (Cat (Sym (\<lambda>c. c = 85 \<or> c = 117))
                  (Cat (Sym (\<lambda>c. c = 83 \<or> c = 115 \<or> c = LONG_S))
                       (Sym (\<lambda>c. c = 68 \<or> c = 100))))\<rparr>,
      \<lparr>pre = Cat (Sym (\<lambda>c. c = EURO)) (Star (isspace U)),
       grp = amount U (\<lambda>c. c = 46 \<or> c = 44), post = Eps\<rparr>,
      \<lparr>pre = Cat (Sym (\<lambda>c. c = POUND)) (Star (isspace U)),
       grp = amount U (\<lambda>c. c = 46), post = Eps\<rparr>]"

definition price_of_match :: "ucd \<Rightarrow> rematch \<Rightarrow> exc + price" where
  "price_of_match U m =
     (case float U (replace_comma (group1 m)) of
        Inl e \<Rightarrow> Inl e
      | Inr price_float \<Rightarrow>
          Inr \<lparr>price_value = price_float,
               price_currency =
                 (if contains [EURO] (group0 m) then EUR
                  else if contains [POUND] (group0 m) then GBP
                  else USD),
               price_raw = group0 m,
               price_position = m_start m\<rparr>)"

fun append_matches :: "ucd \<Rightarrow> price list \<Rightarrow> rematch list \<Rightarrow> exc + price list" where
  "append_matches U prices [] = Inr prices"
| "append_matches U prices (m # ms) =
     (case price_of_match U m of
        Inl e \<Rightarrow> Inl e
      | Inr p \<Rightarrow> append_matches U (prices @ [p]) ms)"

fun scan_patterns :: "ucd \<Rightarrow> pystr \<Rightarrow> price list \<Rightarrow> pattern list \<Rightarrow> exc + price list" where
  "scan_patterns U s prices [] = Inr prices"
| "scan_patterns U s prices (pat # pats) =
     (case append_matches U prices (finditer pat s) of
        Inl e \<Rightarrow> Inl e
      | Inr prices' \<Rightarrow> scan_patterns U s prices' pats)"

definition extract_prices :: "ucd \<Rightarrow> pystr \<Rightarrow> exc + price list" where
  "extract_prices U s = scan_patterns U s [] (price_patterns U)"

section \<open>Text fragments, sections and items\<close>

type_synonym bbox = "rat list list"

record text_block =
  block_bbox :: bbox
  block_text :: pystr
  block_confidence :: rat

text \<open>
  The keyword table of \<open>detect_sections\<close>; a dictionary is iterated in the order in
  which its keys were inserted, so the table is a list of pairs.
\<close>

definition section_keywords :: "(pystr \<times> pystr list) list" where
  "section_keywords =
     [(ascii ''appetizers'',
         [ascii ''appetizer'', ascii ''starter'', ascii ''small plate'', ascii ''sharing'']),
      (ascii ''salads'', [ascii ''salad'', ascii ''greens'']),
      (ascii ''soups'', [ascii ''soup'', ascii ''bisque'', ascii ''chowder'']),
      (ascii ''mains'',
         [ascii ''main'', ascii ''entree'', ascii ''entr'' @ [E_ACUTE] @ ascii ''e'',
          ascii ''pasta'', ascii ''burger'', ascii ''sandwich'']),
      (ascii ''sides'', [ascii ''side'', ascii ''accompaniment'']),
      (ascii ''desserts'', [ascii ''dessert'', ascii ''sweet'', ascii ''pastry'']),
      (ascii ''drinks'',
         [ascii ''drink'', ascii ''beverage'', ascii ''cocktail'', ascii ''wine'',
          ascii ''beer''])]"

text \<open>\<open>any(keyword in text_lower for keyword in keywords)\<close>\<close>

definition any_keyword :: "pystr list \<Rightarrow> pystr \<Rightarrow> bool" where
  "any_keyword keywords text_lower = list_ex (\<lambda>keyword. contains keyword text_lower) keywords"

text \<open>The inner loop of \<open>detect_sections\<close>, over the table, for one block.\<close>

fun scan_keywords :: "pystr \<Rightarrow> pystr list \<Rightarrow> (pystr \<times> pystr list) list \<Rightarrow> pystr list" where
  "scan_keywords text_lower detected_sections [] = detected_sections"
| "scan_keywords text_lower detected_sections ((sec, keywords) # table) =
     scan_keywords text_lower
       (if any_keyword keywords text_lower
        then (if sec \<notin> set detected_sections then detected_sections @ [sec]
              else detected_sections)
        else detected_sections)
       table"

text \<open>The outer loop, over the blocks.\<close>

fun scan_blocks :: "ucd \<Rightarrow> pystr list \<Rightarrow> text_block list \<Rightarrow> pystr list" where
  "scan_blocks U detected_sections [] = detected_sections"
| "scan_blocks U detected_sections (block # blocks) =
     scan_blocks U
       (scan_keywords (lower U (block_text block)) detected_sections section_keywords)
       blocks"

definition detect_sections :: "ucd \<Rightarrow> text_block list \<Rightarrow> pystr list" where
  "detect_sections U text_blocks = scan_blocks U [] text_blocks"

record item =
  item_name :: pystr
  item_section :: pystr
  item_price :: "price option"
  item_bbox :: bbox

text \<open>The labels \<open>extract_items\<close> looks for in a block, in the order of its list.\<close>

definition header_labels :: "pystr list" where
  "header_labels =
     [ascii ''appetizers'', ascii ''mains'', ascii ''desserts'', ascii ''drinks'',
      ascii ''salads'', ascii ''soups'']"

text \<open>
  The loop over the labels. Its \<open>continue\<close> is the last statement of the loop body and
  goes on with the next label: every label is tested.
\<close>

fun update_section :: "pystr \<Rightarrow> pystr \<Rightarrow> pystr list \<Rightarrow> pystr" where
  "update_section text_lower current_section [] = current_section"
| "update_section text_lower current_section (sec # labels) =
     update_section text_lower
       (if contains sec text_lower then sec else current_section) labels"

text \<open>
  The loop \<open>for j in range(i, min(i + 3, len(text_blocks)))\<close>, from \<open>j\<close> on; \<open>stop\<close> is
  at most the number of blocks, so \<open>text_blocks[j]\<close> is in range.
\<close>

function find_price :: "ucd \<Rightarrow> text_block list \<Rightarrow> nat \<Rightarrow> nat \<Rightarrow> exc + price option" where
  "find_price U text_blocks j stop =
     (if j < stop then
        (case extract_prices U (block_text (text_blocks ! j)) of
           Inl e \<Rightarrow> Inl e
         | Inr [] \<Rightarrow> find_price U text_blocks (j + 1) stop
         | Inr (p # _) \<Rightarrow> Inr (Some p))
      else Inr None)"
  by pat_completeness auto
termination
  by (relation "measure (\<lambda>(U, text_blocks, j, stop). stop - j)") auto

declare find_price.simps [simp del]

definition looks_like_item :: "ucd \<Rightarrow> pystr \<Rightarrow> bool" where
  "looks_like_item U s = (length s > 3 \<and> list_ex (isalpha U) s)"

text \<open>
  The loop of \<open>extract_items\<close> over \<open>enumerate(text_blocks)\<close>: \<open>i\<close> is the index of the
  block at the head of the blocks still to visit.
\<close>

fun items_loop ::
  "ucd \<Rightarrow> text_block list \<Rightarrow> nat \<Rightarrow> pystr \<Rightarrow> item list \<Rightarrow> text_block list \<Rightarrow> exc + item list"
where
  "items_loop U text_blocks i current_section items [] = Inr items"
| "items_loop U text_blocks i current_section items (block # rest) =
     (let current_section' =
            update_section (lower U (block_text block)) current_section header_labels
      in if looks_like_item U (block_text block) then
           (case find_price U text_blocks i (min (i + 3) (length text_blocks)) of
              Inl e \<Rightarrow> Inl e
            | Inr p \<Rightarrow>
                items_loop U text_blocks (i + 1) current_section'
                  (items @ [\<lparr>item_name = block_text block, item_section = current_section',
                             item_price = p, item_bbox = block_bbox block\<rparr>])
                  rest)
         else items_loop U text_blocks (i + 1) current_section' items rest)"

definition extract_items :: "ucd \<Rightarrow> text_block list \<Rightarrow> pystr list \<Rightarrow> exc + item list" where
  "extract_items U text_blocks sections =
     items_loop U text_blocks 0
       (case sections of [] \<Rightarrow> ascii ''unknown'' | s # _ \<Rightarrow> s) [] text_blocks"

record page_result =
  full_text :: pystr
  text_blocks :: "text_block list"
  prices :: "price list"
  sections :: "pystr list"
  items :: "item list"
  block_count :: nat
  page_number :: "nat option"

text \<open>\<open>postprocess\<close> returns the page without a page number; the caller sets it.\<close>

definition postprocess :: "ucd \<Rightarrow> text_block list \<Rightarrow> exc + page_result" where
  "postprocess U blocks =
     (let text = join [10] (map block_text blocks)
      in case extract_prices U text of
           Inl e \<Rightarrow> Inl e
         | Inr ps \<Rightarrow>
             (let secs = detect_sections U blocks
              in case extract_items U blocks secs of
                   Inl e \<Rightarrow> Inl e
                 | Inr its \<Rightarrow>
                     Inr \<lparr>full_text = text, text_blocks = blocks, prices = ps,
                          sections = secs, items = its, block_count = length blocks,
                          page_number = None\<rparr>))"

section \<open>Binary64 arithmetic\<close>

text \<open>
  A Python \<open>float\<close> is a binary64 number. The floats of the upscaling step are
  quotients and products of positive integers below \<open>2 ^ 63\<close> (the dimensions of an
  array), all within the normal range, so a float is a mantissa and an exponent of 2
  here, and every operation returns its exact result rounded to 53 significant bits,
  a tie to the even mantissa.
\<close>

record float64 =
  mantissa :: nat
  exponent :: int


text \<open>\<open>n.bit_length()\<close>\<close>

fun bit_length :: "nat \<Rightarrow> nat" where
  "bit_length n = (if n = 0 then 0 else Suc (bit_length (n div 2)))"

declare bit_length.simps [simp del]

text \<open>
  The fraction \<open>p / q\<close> rounded to binary64, for \<open>q\<close> above 0: \<open>e\<close> is the exponent
  with \<open>2 ^ e \<le> p / q < 2 ^ (e + 1)\<close>, \<open>num / den\<close> is the fraction scaled into the
  range from \<open>2 ^ 52\<close> to \<open>2 ^ 53\<close>, and \<open>m\<close> is the integer nearest to it.
\<close>

definition round_fraction :: "nat \<Rightarrow> nat \<Rightarrow> float64" where
  "round_fraction p q =
     (if p = 0 then \<lparr>mantissa = 0, exponent = 0\<rparr>
      else
        (let d = int (bit_length p) - int (bit_length q);
             e = (if q * 2 ^ nat d \<le> p * 2 ^ nat (- d) then d else d - 1);
             k = 52 - e;
             num = p * 2 ^ nat k;
             den = q * 2 ^ nat (- k);
             n = num div den;
             r = num mod den;
             m = (if 2 * r < den then n
                  else if den < 2 * r then n + 1
                  else if even n then n
                  else n + 1)
         in \<lparr>mantissa = m, exponent = - k\<rparr>))"

text \<open>
  \<open>a / b\<close> on two integers (correctly rounded), the conversion of an integer to a
  float, the product of two floats, \<open><\<close> on two floats, \<open>max\<close> (the first argument
  unless the second is greater) and \<open>int(x)\<close>, which truncates.
\<close>

definition truediv :: "nat \<Rightarrow> nat \<Rightarrow> float64" where
  "truediv a b = round_fraction a b"

definition float_of_int :: "nat \<Rightarrow> float64" where
  "float_of_int n = round_fraction n 1"

definition float_mul :: "float64 \<Rightarrow> float64 \<Rightarrow> float64" where
  "float_mul x y =
     (let m = mantissa x * mantissa y; ex = exponent x + exponent y
      in round_fraction (m * 2 ^ nat ex) (2 ^ nat (- ex)))"

definition float_less :: "float64 \<Rightarrow> float64 \<Rightarrow> bool" where
  "float_less x y =
     (let lo = min (exponent x) (exponent y)
      in mantissa x * 2 ^ nat (exponent x - lo) < mantissa y * 2 ^ nat (exponent y - lo))"

definition float_max :: "float64 \<Rightarrow> float64 \<Rightarrow> float64" where
  "float_max x y = (if float_less x y then y else x)"

definition int_of_float :: "float64 \<Rightarrow> int" where
  "int_of_float x =
     (if 0 \<le> exponent x then int (mantissa x * 2 ^ nat (exponent x))
      else int (mantissa x div 2 ^ nat (- exponent x)))"

section \<open>The image normalizer\<close>

text \<open>
  OpenCV and NumPy are collaborators: an image is a value of a type \<open>'img\<close> the model
  does not look into, and the calls \<open>preprocess\<close> makes are the fields of a record, each
  of which may raise. \<open>cv_shape\<close> is \<open>image.shape\<close>, \<open>cv_foreground\<close> is the number of
  rows of \<open>np.column_stack(np.where(thresh > 0))\<close>, \<open>cv_minAreaRect\<close> is the angle
  \<open>cv2.minAreaRect(coords)[-1]\<close>, \<open>cv_warpAffine\<close> is \<open>cv2.getRotationMatrix2D\<close>
  followed by \<open>cv2.warpAffine\<close> (image, centre, angle, size). The angle is a rational:
  OpenCV computes it in single precision, between -90 and 90, and 90 plus such an
  angle is exact in binary64.
\<close>

record 'img cv2 =
  cv_shape :: "'img \<Rightarrow> nat list"
  cv_cvtColor :: "'img \<Rightarrow> exc + 'img"
  cv_fastNlMeansDenoising :: "'img \<Rightarrow> exc + 'img"
  cv_resize :: "'img \<Rightarrow> int \<times> int \<Rightarrow> exc + 'img"
  cv_adaptiveThreshold :: "'img \<Rightarrow> exc + 'img"
  cv_foreground :: "'img \<Rightarrow> nat"
  cv_minAreaRect :: "'img \<Rightarrow> exc + rat"
  cv_warpAffine :: "'img \<Rightarrow> nat \<times> nat \<Rightarrow> rat \<Rightarrow> nat \<times> nat \<Rightarrow> exc + 'img"

text \<open>
  The step \<open>Upscale if resolution is low\<close>. Unpacking \<open>denoised.shape\<close> into two names
  raises \<open>ValueError\<close> unless the image has two dimensions, and the divisions raise
  \<open>ZeroDivisionError\<close> on a dimension 0. The factor and the two products are floats.
\<close>

definition upscale :: "'img cv2 \<Rightarrow> 'img \<Rightarrow> exc + 'img" where
  "upscale cv denoised =
     (case cv_shape cv denoised of
        [height, width] \<Rightarrow>
          (if height < 1200 \<or> width < 900 then
             (if height = 0 \<or> width = 0 then Inl ZeroDivisionError
              else
                (let scale_factor = float_max (truediv 1200 height) (truediv 900 width);
                     new_width = int_of_float (float_mul (float_of_int width) scale_factor);
                     new_height = int_of_float (float_mul (float_of_int height) scale_factor)
                 in cv_resize cv denoised (new_width, new_height)))
           else Inr denoised)
      | _ \<Rightarrow> Inl ValueError)"

definition deskew :: "'img cv2 \<Rightarrow> 'img \<Rightarrow> exc + 'img" where
  "deskew cv thresh =
     (if cv_foreground cv thresh > 0 then
        (case cv_minAreaRect cv thresh of
           Inl e \<Rightarrow> Inl e
         | Inr a \<Rightarrow>
             (let angle = (if a < - 45 then - (90 + a) else - a)
              in if \<bar>angle\<bar> > 1 / 2 then
                   (case cv_shape cv thresh of
                      [h, w] \<Rightarrow> cv_warpAffine cv thresh (w div 2, h div 2) angle (w, h)
                    | _ \<Rightarrow> Inl ValueError)
                 else Inr thresh))
      else Inr thresh)"

definition preprocess :: "'img cv2 \<Rightarrow> 'img \<Rightarrow> exc + 'img" where
  "preprocess cv img =
     (case (if length (cv_shape cv img) = 3 then cv_cvtColor cv img else Inr img) of
        Inl e \<Rightarrow> Inl e
      | Inr gray \<Rightarrow>
          (case cv_fastNlMeansDenoising cv gray of
             Inl e \<Rightarrow> Inl e
           | Inr denoised \<Rightarrow>
               (case upscale cv denoised of
                  Inl e \<Rightarrow> Inl e
                | Inr denoised' \<Rightarrow>
                    (case cv_adaptiveThreshold cv denoised' of
                       Inl e \<Rightarrow> Inl e
                     | Inr thresh \<Rightarrow> deskew cv thresh))))"

record region =
  region_type :: string
  region_bbox :: "nat list"
  region_confidence :: rat

definition detect_layout :: "'img cv2 \<Rightarrow> 'img \<Rightarrow> exc + region list" where
  "detect_layout cv img =
     (case cv_shape cv img of
        height # width # _ \<Rightarrow>
          Inr [\<lparr>region_type = ''full_page'', region_bbox = [0, 0, width, height],
                region_confidence = 1\<rparr>]
      | _ \<Rightarrow> Inl ValueError)"

section \<open>The recognition engine\<close>

text \<open>
  A line of the engine is \<open>[bbox, (text, confidence)]\<close>; its result is \<open>None\<close> or a list
  whose first entry is \<open>None\<close> or the lines of the page.
\<close>

type_synonym ocr_line = "bbox \<times> pystr \<times> rat"
type_synonym 'img engine = "'img \<Rightarrow> exc + ocr_line list option list option"

definition extract_text :: "'img engine \<Rightarrow> 'img \<Rightarrow> exc + text_block list" where
  "extract_text ocr img =
     (case ocr img of
        Inl e \<Rightarrow> Inl e
      | Inr None \<Rightarrow> Inr []
      | Inr (Some []) \<Rightarrow> Inr []
      | Inr (Some (None # _)) \<Rightarrow> Inr []
      | Inr (Some (Some lines # _)) \<Rightarrow>
          Inr (map (\<lambda>(b, t, c). \<lparr>block_bbox = b, block_text = t, block_confidence = c\<rparr>)
                   lines))"

section \<open>The document assembler\<close>

text \<open>The body of the loop over the pages, for the image with index \<open>idx\<close>.\<close>

definition process_page ::
  "ucd \<Rightarrow> 'img cv2 \<Rightarrow> 'img engine \<Rightarrow> nat \<Rightarrow> 'img \<Rightarrow> exc + page_result" where
  "process_page U cv ocr idx img =
     (case preprocess cv img of
        Inl e \<Rightarrow> Inl e
      | Inr preprocessed \<Rightarrow>
          (case detect_layout cv preprocessed of
             Inl e \<Rightarrow> Inl e
           | Inr layout \<Rightarrow>
               (case extract_text ocr preprocessed of
                  Inl e \<Rightarrow> Inl e
                | Inr blocks \<Rightarrow>
                    (case postprocess U blocks of
                       Inl e \<Rightarrow> Inl e
                     | Inr result \<Rightarrow> Inr (result\<lparr>page_number := Some (idx + 1)\<rparr>)))))"

text \<open>
  The loop \<open>for idx, image in enumerate(images)\<close>. Nothing in it catches an exception:
  the first page that raises ends the loop and the function.
\<close>

fun pages_loop ::
  "ucd \<Rightarrow> 'img cv2 \<Rightarrow> 'img engine \<Rightarrow> nat \<Rightarrow> page_result list \<Rightarrow> 'img list
     \<Rightarrow> exc + page_result list"
where
  "pages_loop U cv ocr idx all_results [] = Inr all_results"
| "pages_loop U cv ocr idx all_results (img # rest) =
     (case process_page U cv ocr idx img of
        Inl e \<Rightarrow> Inl e
      | Inr result \<Rightarrow> pages_loop U cv ocr (idx + 1) (all_results @ [result]) rest)"

record document_result =
  pages :: "page_result list"
  total_pages :: nat
  total_text :: pystr
  all_items :: "item list"

text \<open>
  \<open>process_ocr_job\<close>. The download and the decoding of the file are the argument
  \<open>fetched\<close> (the images, or the exception they raised); the upload of the result,
  the update of the artifact and the insertion of the parsing job are \<open>store\<close>.
\<close>

definition process_ocr_job ::
  "ucd \<Rightarrow> 'img cv2 \<Rightarrow> 'img engine \<Rightarrow> exc + 'img list \<Rightarrow> (document_result \<Rightarrow> exc + unit)
     \<Rightarrow> exc + document_result" where
  "process_ocr_job U cv ocr fetched store =
     (case fetched of
        Inl e \<Rightarrow> Inl e
      | Inr images \<Rightarrow>
          (case pages_loop U cv ocr 0 [] images of
             Inl e \<Rightarrow> Inl e
           | Inr all_results \<Rightarrow>
               (let combined_result =
                      \<lparr>pages = all_results,
                       total_pages = length images,
                       total_text = join [10, 10] (map full_text all_results),
                       all_items = concat (map items all_results)\<rparr>
                in case store combined_result of
                     Inl e \<Rightarrow> Inl e
                   | Inr _ \<Rightarrow> Inr combined_result)))"

text \<open>
  What \<open>main\<close> does with a job it has marked as running: the status it writes for it.
\<close>

datatype job_status = Completed document_result | Failed exc

definition run_job ::
  "ucd \<Rightarrow> 'img cv2 \<Rightarrow> 'img engine \<Rightarrow> exc + 'img list \<Rightarrow> (document_result \<Rightarrow> exc + unit)
     \<Rightarrow> job_status" where
  "run_job U cv ocr fetched store =
     (case process_ocr_job U cv ocr fetched store of
        Inr result \<Rightarrow> Completed result
      | Inl e \<Rightarrow> Failed e)"

section \<open>Collaborators for the examples\<close>

text \<open>
  An image is its height and width here. OpenCV refuses an image without pixels and
  hands every other image on as it is, except that \<open>resize\<close> gives it its new size;
  no image has foreground. The engine reads three lines on an image of height 1200 and
  width 1600 and two lines on every other image.
\<close>

definition test_cv :: "(nat \<times> nat) cv2" where
  "test_cv =
     \<lparr>cv_shape = (\<lambda>(h, w). [h, w]),
      cv_cvtColor = Inr,
      cv_fastNlMeansDenoising =
        (\<lambda>(h, w). if h = 0 \<or> w = 0 then Inl (Error ''empty image'') else Inr (h, w)),
      cv_resize = (\<lambda>img (new_width, new_height). Inr (nat new_height, nat new_width)),
      cv_adaptiveThreshold = Inr,
      cv_foreground = (\<lambda>img. 0),
      cv_minAreaRect = (\<lambda>img. Inr 0),
      cv_warpAffine = (\<lambda>img centre angle dsize. Inr img)\<rparr>"

definition test_line :: "string \<Rightarrow> ocr_line" where
  "test_line s = ([], ascii s, 1)"

definition test_engine :: "(nat \<times> nat) engine" where
  "test_engine img =
     (if img = (1200, 1600) then
        Inr (Some [Some [test_line ''Burger $12'', test_line ''Pasta $10'',
                         test_line ''Salad $8'']])
      else Inr (Some [Some [test_line ''Cake $5'', test_line ''Wine $7'']]))"

definition test_block :: "string \<Rightarrow> text_block" where
  "test_block s = \<lparr>block_bbox = [], block_text = ascii s, block_confidence = 1\<rparr>"

definition test_store :: "document_result \<Rightarrow> exc + unit" where
  "test_store d = Inr ()"

text \<open>Three fragments, the second with two prices, and their items.\<close>

definition test_items :: "item list" where
  "test_items =
     projr (extract_items ascii_ucd
              (map test_block [''Burger'', ''$12.99 or $15'', ''Salad'']) [])"

text \<open>A document of two pages, and the results of its pages.\<close>

definition test_images :: "(nat \<times> nat) list" where
  "test_images = [(1200, 1600), (1300, 1000)]"

definition test_pages :: "page_result list" where
  "test_pages =
     [projr (process_page ascii_ucd test_cv test_engine 0 (1200, 1600)),
      projr (process_page ascii_ucd test_cv test_engine 1 (1300, 1000))]"

section \<open>The order of the detected sections\<close>

text \<open>
  The words in which the order of the labels is described: the index of the first
  element of a list with a property, the first fragment in which a keyword of a section
  occurs, and whether the first occurrence of \<open>a\<close> in a list is before that of \<open>b\<close>.
\<close>

fun first_index :: "('a \<Rightarrow> bool) \<Rightarrow> 'a list \<Rightarrow> nat option" where
  "first_index P [] = None"
| "first_index P (x # xs) = (if P x then Some 0 else map_option Suc (first_index P xs))"

definition mentions :: "ucd \<Rightarrow> pystr \<Rightarrow> text_block \<Rightarrow> bool" where
  "mentions U sec block =
     (case map_of section_keywords sec of
        None \<Rightarrow> False
      | Some keywords \<Rightarrow> any_keyword keywords (lower U (block_text block)))"

definition first_seen :: "ucd \<Rightarrow> text_block list \<Rightarrow> pystr \<Rightarrow> nat option" where
  "first_seen U blocks sec = first_index (mentions U sec) blocks"

fun precedes :: "'a \<Rightarrow> 'a \<Rightarrow> 'a list \<Rightarrow> bool" where
  "precedes a b [] = False"
| "precedes a b (x # xs) =
     (if x = a then a \<noteq> b \<and> b \<in> set xs
      else if x = b then False
      else precedes a b xs)"

definition section_labels :: "pystr list" where
  "section_labels = map fst section_keywords"

text \<open>
  The order the code gives the labels: \<open>a\<close> is seen in an earlier fragment than \<open>b\<close>,
  or both are first seen in the same fragment and \<open>a\<close> is before \<open>b\<close> in the keyword
  table.
\<close>

definition seen_before :: "ucd \<Rightarrow> text_block list \<Rightarrow> pystr \<Rightarrow> pystr \<Rightarrow> bool" where
  "seen_before U bs a b \<longleftrightarrow>
     (case (first_seen U bs a, first_seen U bs b) of
        (Some i, Some j) \<Rightarrow> i < j \<or> (i = j \<and> precedes a b section_labels)
      | _ \<Rightarrow> False)"

section \<open>Items and the fragments they come from\<close>

text \<open>
  The item \<open>it\<close> is the one made of the fragment with index \<open>i\<close>: it has its text and
  geometry, and its price is what the loop over the window that starts at \<open>i\<close> returns.
\<close>

definition item_of_block :: "ucd \<Rightarrow> text_block list \<Rightarrow> item \<Rightarrow> nat \<Rightarrow> bool" where
  "item_of_block U bs it i \<longleftrightarrow>
     item_name it = block_text (bs ! i) \<and> item_bbox it = block_bbox (bs ! i)
     \<and> find_price U bs i (min (i + 3) (length bs)) = Inr (item_price it)"

section \<open>What group 1 of a price pattern holds\<close>

text \<open>The strings group 1 can hold: digits, or digits, a separator and two digits.\<close>

definition numeric :: "ucd \<Rightarrow> (codepoint \<Rightarrow> bool) \<Rightarrow> pystr \<Rightarrow> bool" where
  "numeric U sep g \<longleftrightarrow>
     (\<exists>ds. ds \<noteq> [] \<and> list_all (isdigit U) ds
        \<and> (g = ds \<or> (\<exists>c d1 d2. sep c \<and> isdigit U d1 \<and> isdigit U d2 \<and> g = ds @ [c, d1, d2])))"

section \<open>Evaluation\<close>

lemmas char_eval = ascii_def POUND_def EURO_def E_ACUTE_def LONG_S_def is_currency_sign_def
  isdigit_def decimal_def isspace_def isalpha_def lower_def lower_char_def

lemmas price_eval = extract_prices_def price_patterns_def finditer_def finditer_from.simps
  match_at_def amount_def float_def price_of_match_def replace_comma_def

lemmas section_eval = detect_sections_def section_keywords_def any_keyword_def

lemmas item_eval = extract_items_def header_labels_def looks_like_item_def find_price.simps
  Let_def

lemmas float_eval = round_fraction_def truediv_def float_of_int_def float_mul_def
  float_less_def float_max_def int_of_float_def bit_length.simps Let_def

lemmas page_eval = process_page_def preprocess_def upscale_def deskew_def detect_layout_def
  extract_text_def postprocess_def test_cv_def test_engine_def test_line_def test_store_def
  process_ocr_job_def run_job_def

lemma map_eq_three:
  "map f xs = [a, b, c] \<longleftrightarrow> (\<exists>x y z. xs = [x, y, z] \<and> f x = a \<and> f y = b \<and> f z = c)"
  by (auto simp: map_eq_Cons_conv)

lemma map_eq_four:
  "map f xs = [a, b, c, d] \<longleftrightarrow>
     (\<exists>x y z w. xs = [x, y, z, w] \<and> f x = a \<and> f y = b \<and> f z = c \<and> f w = d)"
  by (auto simp: map_eq_Cons_conv)

section \<open>Price extraction: the examples\<close>

text \<open>
  C7. \<open>extract_prices\<close> on the euro sign followed by \<open>10,99\<close> returns one price, of value
  10.99 and currency EUR (the comma has become a point before \<open>float\<close> reads the
  amount), and on \<open>$8.50\<close> one price of value 8.50 and currency USD; whatever the
  Unicode database says beyond ASCII.
\<close>

theorem extract_prices_euro_dollar:
  "extract_prices U (EURO # ascii ''10,99'') =
     Inr [\<lparr>price_value = 1099 / 100, price_currency = EUR,
           price_raw = EURO # ascii ''10,99'', price_position = 0\<rparr>]
   \<and> extract_prices U (ascii ''$8.50'') =
     Inr [\<lparr>price_value = 850 / 100, price_currency = USD,
           price_raw = ascii ''$8.50'', price_position = 0\<rparr>]"
  by (simp add: price_eval char_eval)

text \<open>
  C4, as the claim states it: \<open>extract_prices\<close> on the pound sign followed by \<open>5\<close>
  produces no price. It does produce one.
\<close>

theorem extract_prices_pound_counterexample:
  "extract_prices ascii_ucd (POUND # ascii ''5'') \<noteq> Inr []"
  by (simp add: price_eval char_eval)

text \<open>
  C4, amended: the decimals of the pound pattern are optional, so \<open>extract_prices\<close> on
  the pound sign followed by \<open>5\<close> returns exactly one price, of value 5 and currency GBP,
  whose raw text is the whole input and whose position is 0.
\<close>

theorem extract_prices_pound:
  "extract_prices U (POUND # ascii ''5'') =
     Inr [\<lparr>price_value = 5, price_currency = GBP,
           price_raw = POUND # ascii ''5'', price_position = 0\<rparr>]"
  by (simp add: price_eval char_eval)

section \<open>Section detection: the example\<close>

text \<open>
  C3, as the claim states it: \<open>detect_sections\<close> on the fragments \<open>Starters\<close>,
  \<open>Caesar Salad $9\<close>, \<open>Burger $12\<close> returns the labels appetizers and salads and no
  other. It returns a third one.
\<close>

theorem detect_sections_starters_counterexample:
  "detect_sections ascii_ucd
     (map test_block [''Starters'', ''Caesar Salad $9'', ''Burger $12''])
   \<noteq> [ascii ''appetizers'', ascii ''salads'']"
  by (simp add: test_block_def section_eval char_eval)

text \<open>
  C3, amended: \<open>burger\<close> is a keyword of the section mains, so \<open>detect_sections\<close> on
  fragments with the texts \<open>Starters\<close>, \<open>Caesar Salad $9\<close>, \<open>Burger $12\<close> returns
  appetizers, salads, mains, in this order, whatever their geometry and confidence.
\<close>

theorem detect_sections_starters:
  assumes "map block_text blocks =
             [ascii ''Starters'', ascii ''Caesar Salad $9'', ascii ''Burger $12'']"
  shows "detect_sections U blocks = [ascii ''appetizers'', ascii ''salads'', ascii ''mains'']"
proof -
  from assms obtain x y z where blocks: "blocks = [x, y, z]"
    and texts: "block_text x = ascii ''Starters''" "block_text y = ascii ''Caesar Salad $9''"
      "block_text z = ascii ''Burger $12''"
    unfolding map_eq_three by blast
  show ?thesis
    unfolding blocks by (simp add: texts section_eval char_eval)
qed

theorem detect_sections_starters_witness:
  "map block_text (map test_block [''Starters'', ''Caesar Salad $9'', ''Burger $12'']) =
     [ascii ''Starters'', ascii ''Caesar Salad $9'', ascii ''Burger $12'']
   \<and> detect_sections ascii_ucd
       (map test_block [''Starters'', ''Caesar Salad $9'', ''Burger $12'']) =
     [ascii ''appetizers'', ascii ''salads'', ascii ''mains'']"
proof -
  have texts: "map block_text (map test_block [''Starters'', ''Caesar Salad $9'', ''Burger $12''])
      = [ascii ''Starters'', ascii ''Caesar Salad $9'', ascii ''Burger $12'']"
    by (simp add: test_block_def)
  show ?thesis
    using texts detect_sections_starters [OF texts, of ascii_ucd] by simp
qed

section \<open>Item extraction: the examples\<close>

text \<open>
  C2, on the code: a fragment with the text \<open>Mains and Desserts\<close> contains two labels of
  the list of \<open>extract_items\<close>, mains before desserts. The loop over the labels does not
  stop at the first label found (its \<open>continue\<close> goes on with the next label), so the
  item of this fragment is put in the section desserts, the last label found.
\<close>

theorem extract_items_last_label_wins:
  "extract_items U
     [\<lparr>block_bbox = b, block_text = ascii ''Mains and Desserts'', block_confidence = c\<rparr>]
     secs =
   Inr [\<lparr>item_name = ascii ''Mains and Desserts'', item_section = ascii ''desserts'',
         item_price = None, item_bbox = b\<rparr>]"
  by (simp add: item_eval price_eval char_eval)

text \<open>
  C6. \<open>extract_items\<close> on fragments with the texts \<open>Burger\<close>, \<open>Fries\<close>, \<open>$12.99\<close>, \<open>Salad\<close>
  returns three items: Burger and Fries, each with the price 12.99 USD found in the
  third fragment, within the window of three fragments that starts at the item's own
  fragment, and Salad with no price. The fragment \<open>$12.99\<close> has no letter and is no item.
\<close>

theorem extract_items_lookahead_example:
  assumes "map block_text blocks =
             [ascii ''Burger'', ascii ''Fries'', ascii ''$12.99'', ascii ''Salad'']"
  shows "\<exists>its. extract_items U blocks secs = Inr its \<and>
           map (\<lambda>it. (item_name it,
                      map_option (\<lambda>p. (price_value p, price_currency p)) (item_price it))) its =
             [(ascii ''Burger'', Some (1299 / 100, USD)),
              (ascii ''Fries'', Some (1299 / 100, USD)),
              (ascii ''Salad'', None)]"
proof -
  from assms obtain x y z w where blocks: "blocks = [x, y, z, w]"
    and texts: "block_text x = ascii ''Burger''" "block_text y = ascii ''Fries''"
      "block_text z = ascii ''$12.99''" "block_text w = ascii ''Salad''"
    unfolding map_eq_four by blast
  show ?thesis
    unfolding blocks by (simp add: texts item_eval price_eval char_eval)
qed

theorem extract_items_lookahead_example_witness:
  "map block_text (map test_block [''Burger'', ''Fries'', ''$12.99'', ''Salad'']) =
     [ascii ''Burger'', ascii ''Fries'', ascii ''$12.99'', ascii ''Salad'']
   \<and> (\<exists>its. extract_items ascii_ucd
               (map test_block [''Burger'', ''Fries'', ''$12.99'', ''Salad'']) [] = Inr its \<and>
           map (\<lambda>it. (item_name it,
                      map_option (\<lambda>p. (price_value p, price_currency p)) (item_price it))) its =
             [(ascii ''Burger'', Some (1299 / 100, USD)),
              (ascii ''Fries'', Some (1299 / 100, USD)),
              (ascii ''Salad'', None)])"
proof -
  have texts: "map block_text (map test_block [''Burger'', ''Fries'', ''$12.99'', ''Salad'']) =
      [ascii ''Burger'', ascii ''Fries'', ascii ''$12.99'', ascii ''Salad'']"
    by (simp add: test_block_def)
  show ?thesis
    using texts extract_items_lookahead_example [OF texts, of ascii_ucd "[]"] by blast
qed

section \<open>Binary64 arithmetic: rounding\<close>


















section \<open>The upscaling step\<close>


lemma upscale_sizes:
  "int_of_float (float_mul (float_of_int 800) (float_max (truediv 1200 600) (truediv 900 800)))
     = 1600"
  "int_of_float (float_mul (float_of_int 600) (float_max (truediv 1200 600) (truediv 900 800)))
     = 1200"
  "int_of_float (float_mul (float_of_int 776) (float_max (truediv 1200 582) (truediv 900 776)))
     = 1599"
  "int_of_float (float_mul (float_of_int 582) (float_max (truediv 1200 582) (truediv 900 776)))
     = 1199"
  "int_of_float (float_mul (float_of_int 314) (float_max (truediv 1200 419) (truediv 900 314)))
     = 899"
  "int_of_float (float_mul (float_of_int 419) (float_max (truediv 1200 419) (truediv 900 314)))
     = 1200"
  by (simp_all add: float_eval)


text \<open>
  The rounding shows at a height of 582 and a width of 776: the factor is the float
  nearest to \<open>1200/582\<close>, its products with 776 and 582 are floats just below 1600 and
  1200, and the image is resized to 1599 by 1199. At 419 by 314 the width becomes 899.
\<close>

lemma upscale_rounds_down:
  "upscale test_cv (582, 776) = Inr (1199, 1599)
   \<and> upscale test_cv (419, 314) = Inr (1200, 899)"
proof -
  have shapes: "cv_shape test_cv (582, 776) = [582, 776]" "cv_shape test_cv (419, 314) = [419, 314]"
    and resized: "cv_resize test_cv (582, 776) (1599, 1199) = Inr (1199, 1599)"
      "cv_resize test_cv (419, 314) (899, 1200) = Inr (1200, 899)"
    by (simp_all add: test_cv_def)
  show ?thesis
    by (simp add: upscale_def shapes resized upscale_sizes Let_def)
qed


section \<open>The document assembler: failing pages\<close>





section \<open>The document assembler: the document result\<close>

lemma pages_loop_succeeds:
  assumes "length results = length images"
    and "\<forall>i < length images. process_page U cv ocr (idx + i) (images ! i) = Inr (results ! i)"
  shows "pages_loop U cv ocr idx acc images = Inr (acc @ results)"
  using assms
proof (induction images arbitrary: idx acc results)
  case Nil
  then show ?case by simp
next
  case (Cons img rest)
  from Cons.prems(1) obtain r rs where results: "results = r # rs"
    and len: "length rs = length rest"
    by (cases results) auto
  from Cons.prems(2) [rule_format, of 0] have first: "process_page U cv ocr idx img = Inr r"
    by (simp add: results)
  have others:
    "\<forall>i < length rest. process_page U cv ocr (Suc idx + i) (rest ! i) = Inr (rs ! i)"
  proof (intro allI impI)
    fix i assume "i < length rest"
    with Cons.prems(2) [rule_format, of "Suc i"]
    show "process_page U cv ocr (Suc idx + i) (rest ! i) = Inr (rs ! i)"
      by (simp add: results)
  qed
  from Cons.IH [OF len others, of "acc @ [r]"] show ?case
    by (simp add: first results)
qed

lemma test_pages_first:
  "process_page ascii_ucd test_cv test_engine 0 (1200, 1600) = Inr (test_pages ! 0)"
  unfolding test_pages_def
  by (simp add: page_eval section_eval item_eval price_eval char_eval)

lemma test_pages_second:
  "process_page ascii_ucd test_cv test_engine 1 (1300, 1000) = Inr (test_pages ! 1)"
  unfolding test_pages_def
  by (simp add: page_eval section_eval item_eval price_eval char_eval)

lemma test_pages_items: "map (\<lambda>r. length (items r)) test_pages = [3, 2]"
  unfolding test_pages_def
  by (simp add: page_eval section_eval item_eval price_eval char_eval)

text \<open>
  C9. When every page of a document gives a page result (and the result can be
  stored), the document result holds these page results, \<open>total_pages\<close> is the number
  of pages, the text is the texts of the pages joined by two line feeds (a blank
  line), and \<open>all_items\<close> is the items of the pages, one page after the other.
\<close>

theorem document_result_of_pages:
  assumes "length results = length images"
    and "\<forall>i < length images. process_page U cv ocr i (images ! i) = Inr (results ! i)"
    and "store \<lparr>pages = results, total_pages = length images,
                 total_text = join [10, 10] (map full_text results),
                 all_items = concat (map items results)\<rparr> = Inr u"
  shows "process_ocr_job U cv ocr (Inr images) store =
           Inr \<lparr>pages = results, total_pages = length images,
                total_text = join [10, 10] (map full_text results),
                all_items = concat (map items results)\<rparr>"
proof -
  have "pages_loop U cv ocr 0 [] images = Inr ([] @ results)"
    by (rule pages_loop_succeeds) (use assms in simp_all)
  then show ?thesis using assms(3) by (simp add: process_ocr_job_def)
qed

text \<open>
  A document of two pages with 3 items on the first and 2 on the second: 2 pages, 5
  items in the order of the pages, and the two texts with a blank line between them.
\<close>

theorem document_result_of_pages_witness:
  "length test_pages = length test_images
   \<and> process_page ascii_ucd test_cv test_engine 0 (test_images ! 0) = Inr (test_pages ! 0)
   \<and> process_page ascii_ucd test_cv test_engine 1 (test_images ! 1) = Inr (test_pages ! 1)
   \<and> map (\<lambda>r. length (items r)) test_pages = [3, 2]
   \<and> (\<exists>d. process_ocr_job ascii_ucd test_cv test_engine (Inr test_images) test_store = Inr d
          \<and> total_pages d = 2
          \<and> length (all_items d) = 5
          \<and> all_items d = items (test_pages ! 0) @ items (test_pages ! 1)
          \<and> total_text d = full_text (test_pages ! 0) @ [10, 10] @ full_text (test_pages ! 1))"
proof -
  have len: "length test_pages = length test_images"
    by (simp add: test_pages_def test_images_def)
  have each: "\<forall>i < length test_images.
      process_page ascii_ucd test_cv test_engine i (test_images ! i) = Inr (test_pages ! i)"
    using test_pages_first test_pages_second
    by (auto simp: test_images_def less_Suc_eq numeral_2_eq_2)
  have stored: "test_store \<lparr>pages = test_pages, total_pages = length test_images,
      total_text = join [10, 10] (map full_text test_pages),
      all_items = concat (map items test_pages)\<rparr> = Inr ()"
    by (simp add: test_store_def)
  have shape: "test_pages = [test_pages ! 0, test_pages ! 1]"
    by (simp add: test_pages_def)
  have count: "length (concat (map items test_pages)) = 5"
    using test_pages_items by (simp add: length_concat comp_def)
  have flat: "concat (map items test_pages) = items (test_pages ! 0) @ items (test_pages ! 1)"
    by (subst shape) simp
  have joined: "join [10, 10] (map full_text test_pages)
      = full_text (test_pages ! 0) @ [10, 10] @ full_text (test_pages ! 1)"
    by (subst shape) simp
  show ?thesis
    using len test_pages_first test_pages_second test_pages_items count flat joined
      document_result_of_pages [of test_pages test_images ascii_ucd test_cv test_engine
        test_store "()", OF len each stored]
    by (simp add: test_images_def)
qed

section \<open>Item extraction: the price of an item\<close>

lemma find_price_Some:
  assumes "find_price U bs j stop = Inr (Some p)"
  shows "\<exists>k ps. j \<le> k \<and> k < stop
           \<and> (\<forall>m. j \<le> m \<and> m < k \<longrightarrow> extract_prices U (block_text (bs ! m)) = Inr [])
           \<and> extract_prices U (block_text (bs ! k)) = Inr (p # ps)"
  using assms
proof (induction U bs j stop rule: find_price.induct)
  case (1 U bs j stop)
  from "1.prems" have less: "j < stop"
    by (subst (asm) find_price.simps) (simp split: if_splits)
  show ?case
  proof (cases "extract_prices U (block_text (bs ! j))")
    case (Inl e)
    with "1.prems" less show ?thesis
      by (subst (asm) find_price.simps) simp
  next
    case (Inr found)
    show ?thesis
    proof (cases found)
      case Nil
      with "1.prems" less Inr have next_one: "find_price U bs (j + 1) stop = Inr (Some p)"
        by (subst (asm) find_price.simps) simp
      from "1.IH" [OF less Inr Nil next_one] obtain k ps where k: "j + 1 \<le> k" "k < stop"
        and before: "\<forall>m. j + 1 \<le> m \<and> m < k \<longrightarrow> extract_prices U (block_text (bs ! m)) = Inr []"
        and at: "extract_prices U (block_text (bs ! k)) = Inr (p # ps)"
        by blast
      have "\<forall>m. j \<le> m \<and> m < k \<longrightarrow> extract_prices U (block_text (bs ! m)) = Inr []"
      proof (intro allI impI)
        fix m assume m: "j \<le> m \<and> m < k"
        show "extract_prices U (block_text (bs ! m)) = Inr []"
        proof (cases "m = j")
          case True
          with Inr Nil show ?thesis by simp
        next
          case False
          with m have "j + 1 \<le> m \<and> m < k" by simp
          with before show ?thesis by blast
        qed
      qed
      with k at show ?thesis by (intro exI [of _ k] exI [of _ ps]) simp
    next
      case (Cons q qs)
      with "1.prems" less Inr have "q = p"
        by (subst (asm) find_price.simps) simp
      with Inr Cons less show ?thesis
        by (intro exI [of _ j] exI [of _ qs]) auto
    qed
  qed
qed

lemma find_price_None:
  assumes "find_price U bs j stop = Inr None"
  shows "\<forall>m. j \<le> m \<and> m < stop \<longrightarrow> extract_prices U (block_text (bs ! m)) = Inr []"
  using assms
proof (induction U bs j stop rule: find_price.induct)
  case (1 U bs j stop)
  show ?case
  proof (cases "j < stop")
    case False
    then show ?thesis by auto
  next
    case less: True
    show ?thesis
    proof (cases "extract_prices U (block_text (bs ! j))")
      case (Inl e)
      with "1.prems" less show ?thesis
        by (subst (asm) find_price.simps) simp
    next
      case (Inr found)
      show ?thesis
      proof (cases found)
        case Nil
        with "1.prems" less Inr have next_one: "find_price U bs (j + 1) stop = Inr None"
          by (subst (asm) find_price.simps) simp
        from "1.IH" [OF less Inr Nil next_one]
        have later: "\<forall>m. j + 1 \<le> m \<and> m < stop \<longrightarrow> extract_prices U (block_text (bs ! m)) = Inr []" .
        show ?thesis
        proof (intro allI impI)
          fix m assume m: "j \<le> m \<and> m < stop"
          show "extract_prices U (block_text (bs ! m)) = Inr []"
          proof (cases "m = j")
            case True
            with Inr Nil show ?thesis by simp
          next
            case False
            with m have "j + 1 \<le> m \<and> m < stop" by simp
            with later show ?thesis by blast
          qed
        qed
      next
        case (Cons q qs)
        with "1.prems" less Inr show ?thesis
          by (subst (asm) find_price.simps) simp
      qed
    qed
  qed
qed


lemma drop_eq_ConsD:
  assumes "drop i xs = y # ys"
  shows "i < length xs \<and> y = xs ! i \<and> ys = drop (Suc i) xs"
proof -
  from assms have less: "i < length xs"
    by (cases "i < length xs") auto
  from Cons_nth_drop_Suc [OF less] assms show ?thesis
    using less by simp
qed

lemma items_loop_result:
  assumes "items_loop U bs i cur acc rest = Inr its" and "rest = drop i bs"
  shows "\<exists>new. its = acc @ new
           \<and> list_all2 (item_of_block U bs) new
               (filter (\<lambda>n. looks_like_item U (block_text (bs ! n))) [i..<length bs])"
  using assms
proof (induction rest arbitrary: i cur acc its)
  case Nil
  then have "length bs \<le> i" by simp
  with Nil show ?case by simp
next
  case (Cons b rest)
  from drop_eq_ConsD [OF Cons.prems(2) [symmetric]]
  have less: "i < length bs" and b: "b = bs ! i" and rest: "rest = drop (Suc i) bs"
    by simp_all
  from less have upt: "[i..<length bs] = i # [Suc i..<length bs]"
    by (simp add: upt_conv_Cons)
  let ?cur = "update_section (lower U (block_text b)) cur header_labels"
  show ?case
  proof (cases "looks_like_item U (block_text b)")
    case False
    with Cons.prems(1) have "items_loop U bs (Suc i) ?cur acc rest = Inr its"
      by (simp add: Let_def)
    from Cons.IH [OF this rest] False b upt show ?thesis by simp
  next
    case True
    show ?thesis
    proof (cases "find_price U bs i (min (i + 3) (length bs))")
      case (Inl e)
      with Cons.prems(1) True show ?thesis by (simp add: Let_def)
    next
      case (Inr p)
      let ?it = "\<lparr>item_name = block_text b, item_section = ?cur, item_price = p,
                   item_bbox = block_bbox b\<rparr>"
      from Cons.prems(1) True Inr
      have "items_loop U bs (Suc i) ?cur (acc @ [?it]) rest = Inr its"
        by (simp add: Let_def)
      from Cons.IH [OF this rest] obtain new where its: "its = (acc @ [?it]) @ new"
        and new: "list_all2 (item_of_block U bs) new
               (filter (\<lambda>n. looks_like_item U (block_text (bs ! n))) [Suc i..<length bs])"
        by blast
      have "item_of_block U bs ?it i"
        by (simp add: item_of_block_def b Inr)
      with new True b have "list_all2 (item_of_block U bs) (?it # new)
               (filter (\<lambda>n. looks_like_item U (block_text (bs ! n))) [i..<length bs])"
        by (simp add: upt)
      with its show ?thesis by (intro exI [of _ "?it # new"]) simp
    qed
  qed
qed

text \<open>
  C10. The items \<open>extract_items\<close> returns are, in order, those of the fragments that
  look like an item. When such an item has a price, there is a fragment in its window
  (the fragment itself and at most the next two) of which \<open>extract_prices\<close> returns a
  list with this price at its head, and \<open>extract_prices\<close> returns the empty list for
  every fragment of the window before that one; the other prices of the list are not
  attached. When the item has no price, \<open>extract_prices\<close> returns the empty list for
  every fragment of the window.
\<close>

theorem extract_items_price_first_in_window:
  assumes "extract_items U blocks secs = Inr its"
  shows "list_all2
           (\<lambda>it i. item_name it = block_text (blocks ! i)
              \<and> (\<forall>p. item_price it = Some p \<longrightarrow>
                    (\<exists>j ps. i \<le> j \<and> j < min (i + 3) (length blocks)
                       \<and> (\<forall>m. i \<le> m \<and> m < j \<longrightarrow>
                             extract_prices U (block_text (blocks ! m)) = Inr [])
                       \<and> extract_prices U (block_text (blocks ! j)) = Inr (p # ps)))
              \<and> (item_price it = None \<longrightarrow>
                    (\<forall>m. i \<le> m \<and> m < min (i + 3) (length blocks) \<longrightarrow>
                       extract_prices U (block_text (blocks ! m)) = Inr [])))
           its
           (filter (\<lambda>i. looks_like_item U (block_text (blocks ! i))) [0..<length blocks])"
proof -
  from assms have "items_loop U blocks 0
      (case secs of [] \<Rightarrow> ascii ''unknown'' | s # _ \<Rightarrow> s) [] (drop 0 blocks) = Inr its"
    by (simp add: extract_items_def)
  from items_loop_result [OF this refl]
  have all: "list_all2 (item_of_block U blocks) its
      (filter (\<lambda>i. looks_like_item U (block_text (blocks ! i))) [0..<length blocks])"
    by simp
  show ?thesis
  proof (rule list_all2_mono [OF all])
    fix it i
    assume "item_of_block U blocks it i"
    then have name: "item_name it = block_text (blocks ! i)"
      and found: "find_price U blocks i (min (i + 3) (length blocks)) = Inr (item_price it)"
      by (simp_all add: item_of_block_def)
    have some: "\<forall>p. item_price it = Some p \<longrightarrow>
        (\<exists>j ps. i \<le> j \<and> j < min (i + 3) (length blocks)
           \<and> (\<forall>m. i \<le> m \<and> m < j \<longrightarrow> extract_prices U (block_text (blocks ! m)) = Inr [])
           \<and> extract_prices U (block_text (blocks ! j)) = Inr (p # ps))"
      using find_price_Some [of U blocks i "min (i + 3) (length blocks)"] found by simp
    have none: "item_price it = None \<longrightarrow>
        (\<forall>m. i \<le> m \<and> m < min (i + 3) (length blocks) \<longrightarrow>
           extract_prices U (block_text (blocks ! m)) = Inr [])"
      using find_price_None [of U blocks i "min (i + 3) (length blocks)"] found by simp
    from name some none
    show "item_name it = block_text (blocks ! i)
        \<and> (\<forall>p. item_price it = Some p \<longrightarrow>
              (\<exists>j ps. i \<le> j \<and> j < min (i + 3) (length blocks)
                 \<and> (\<forall>m. i \<le> m \<and> m < j \<longrightarrow>
                       extract_prices U (block_text (blocks ! m)) = Inr [])
                 \<and> extract_prices U (block_text (blocks ! j)) = Inr (p # ps)))
        \<and> (item_price it = None \<longrightarrow>
              (\<forall>m. i \<le> m \<and> m < min (i + 3) (length blocks) \<longrightarrow>
                 extract_prices U (block_text (blocks ! m)) = Inr []))"
      by blast
  qed
qed


text \<open>
  The second of three fragments holds two prices; the first two items get the first of
  them, the item of the last fragment gets none.
\<close>

theorem extract_items_price_first_in_window_witness:
  "extract_items ascii_ucd (map test_block [''Burger'', ''$12.99 or $15'', ''Salad'']) []
     = Inr test_items
   \<and> map item_name test_items = [ascii ''Burger'', ascii ''$12.99 or $15'', ascii ''Salad'']
   \<and> map (\<lambda>it. map_option price_value (item_price it)) test_items
       = [Some (1299 / 100), Some (1299 / 100), None]
   \<and> map price_value (projr (extract_prices ascii_ucd (ascii ''$12.99 or $15'')))
       = [1299 / 100, 15]"
proof -
  have run: "extract_items ascii_ucd
      (map test_block [''Burger'', ''$12.99 or $15'', ''Salad'']) [] = Inr test_items"
    unfolding test_items_def
    by (simp add: test_block_def item_eval price_eval char_eval)
  show ?thesis
    using run extract_items_price_first_in_window [OF run]
    unfolding test_items_def
    by (simp add: test_block_def item_eval price_eval char_eval)
qed

section \<open>Section detection: the order of the labels\<close>

lemma first_index_snoc:
  "first_index P (xs @ [x]) =
     (case first_index P xs of
        Some i \<Rightarrow> Some i
      | None \<Rightarrow> if P x then Some (length xs) else None)"
  by (induction xs) (auto split: option.splits)

lemma first_index_less: "first_index P xs = Some i \<Longrightarrow> i < length xs"
  by (induction xs arbitrary: i) (auto split: if_splits)

lemma precedes_members: "precedes a b xs \<Longrightarrow> a \<in> set xs \<and> b \<in> set xs \<and> a \<noteq> b"
  by (induction xs) (auto split: if_splits)

lemma precedes_append_both:
  "a \<in> set xs \<Longrightarrow> b \<in> set xs \<Longrightarrow> precedes a b (xs @ ys) = precedes a b xs"
  by (induction xs) auto

lemma precedes_append_left:
  "a \<in> set xs \<Longrightarrow> b \<notin> set xs \<Longrightarrow> precedes a b (xs @ ys) = (b \<in> set ys)"
  by (induction xs) auto

lemma precedes_append_right:
  "a \<notin> set xs \<Longrightarrow> b \<in> set xs \<Longrightarrow> \<not> precedes a b (xs @ ys)"
  by (induction xs) auto

lemma precedes_append_none:
  "a \<notin> set xs \<Longrightarrow> b \<notin> set xs \<Longrightarrow> precedes a b (xs @ ys) = precedes a b ys"
  by (induction xs) auto

lemma precedes_filter:
  "Q a \<Longrightarrow> Q b \<Longrightarrow> precedes a b (filter Q xs) = precedes a b xs"
  by (induction xs) auto

lemma scan_keywords_eq:
  assumes "distinct (map fst table)"
  shows "scan_keywords t acc table =
           acc @ filter (\<lambda>s. s \<notin> set acc)
                   (map fst (filter (\<lambda>(s, keywords). any_keyword keywords t) table))"
  using assms
proof (induction table arbitrary: acc)
  case Nil
  then show ?case by simp
next
  case (Cons entry table)
  obtain s kws where entry: "entry = (s, kws)" by (cases entry)
  let ?found = "map fst (filter (\<lambda>(s, keywords). any_keyword keywords t) table)"
  from Cons.prems entry have fresh: "s \<notin> set ?found" and rest: "distinct (map fst table)"
    by auto
  from fresh have drop_s: "filter (\<lambda>x. x \<notin> set (acc @ [s])) ?found = filter (\<lambda>x. x \<notin> set acc) ?found"
    by (intro filter_cong) auto
  show ?case
    using Cons.IH [OF rest, of "acc @ [s]"] Cons.IH [OF rest, of acc] drop_s
    by (simp add: entry)
qed

lemma keys_of_filter:
  assumes "distinct (map fst table)"
  shows "map fst (filter (\<lambda>(s, v). P v) table) =
           filter (\<lambda>s. case map_of table s of None \<Rightarrow> False | Some v \<Rightarrow> P v) (map fst table)"
  using assms
proof (induction table)
  case Nil
  then show ?case by simp
next
  case (Cons entry table)
  obtain s v where entry: "entry = (s, v)" by (cases entry)
  from Cons.prems entry have fresh: "s \<notin> set (map fst table)" and rest: "distinct (map fst table)"
    by auto
  from fresh have same:
    "filter (\<lambda>x. case map_of (entry # table) x of None \<Rightarrow> False | Some v \<Rightarrow> P v) (map fst table)
       = filter (\<lambda>x. case map_of table x of None \<Rightarrow> False | Some v \<Rightarrow> P v) (map fst table)"
    by (intro filter_cong) (auto simp: entry)
  show ?case
    using Cons.IH [OF rest] same by (simp add: entry)
qed

lemma distinct_section_labels: "distinct section_labels"
  by (simp add: section_labels_def section_keywords_def ascii_def E_ACUTE_def)

lemma scan_keywords_block:
  "scan_keywords (lower U (block_text b)) acc section_keywords =
     acc @ filter (\<lambda>s. s \<notin> set acc \<and> mentions U s b) section_labels"
proof -
  have keys: "distinct (map fst section_keywords)"
    using distinct_section_labels by (simp add: section_labels_def)
  have "map fst (filter (\<lambda>(s, keywords). any_keyword keywords (lower U (block_text b)))
                   section_keywords)
      = filter (\<lambda>s. mentions U s b) section_labels"
    unfolding mentions_def section_labels_def by (rule keys_of_filter [OF keys])
  with scan_keywords_eq [OF keys, of "lower U (block_text b)" acc] show ?thesis
    by (simp add: conj_commute)
qed

lemma scan_blocks_snoc:
  "scan_blocks U acc (bs @ [b]) =
     scan_keywords (lower U (block_text b)) (scan_blocks U acc bs) section_keywords"
  by (induction bs arbitrary: acc) simp_all

lemma detect_sections_snoc:
  "detect_sections U (bs @ [b]) =
     detect_sections U bs
       @ filter (\<lambda>s. s \<notin> set (detect_sections U bs) \<and> mentions U s b) section_labels"
  by (simp add: detect_sections_def scan_blocks_snoc scan_keywords_block)

lemma mentions_label: "mentions U s b \<Longrightarrow> s \<in> set section_labels"
  by (auto simp: mentions_def section_labels_def split: option.splits dest: map_of_SomeD
           intro: rev_image_eqI)

lemma first_seen_snoc:
  "first_seen U (bs @ [b]) s =
     (case first_seen U bs s of
        Some i \<Rightarrow> Some i
      | None \<Rightarrow> if mentions U s b then Some (length bs) else None)"
  by (simp add: first_seen_def first_index_snoc)

lemma first_seen_less: "first_seen U bs s = Some i \<Longrightarrow> i < length bs"
  by (simp add: first_seen_def first_index_less)


lemma detect_sections_members:
  "s \<in> set (detect_sections U bs) \<longleftrightarrow> first_seen U bs s \<noteq> None"
proof (induction bs rule: rev_induct)
  case Nil
  show ?case by (simp add: detect_sections_def first_seen_def)
next
  case (snoc b bs)
  show ?case
    using snoc.IH mentions_label [of U s b]
    by (auto simp: detect_sections_snoc first_seen_snoc split: option.splits)
qed

lemma detect_sections_distinct: "distinct (detect_sections U bs)"
proof (induction bs rule: rev_induct)
  case Nil
  show ?case by (simp add: detect_sections_def)
next
  case (snoc b bs)
  with distinct_section_labels show ?case
    by (auto simp: detect_sections_snoc)
qed

lemma detect_sections_order:
  assumes "a \<in> set (detect_sections U bs)" and "b \<in> set (detect_sections U bs)"
  shows "precedes a b (detect_sections U bs) \<longleftrightarrow> seen_before U bs a b"
  using assms
proof (induction bs rule: rev_induct)
  case Nil
  then show ?case by (simp add: detect_sections_def)
next
  case (snoc x bs)
  let ?out = "detect_sections U bs"
  let ?new = "filter (\<lambda>s. s \<notin> set ?out \<and> mentions U s x) section_labels"
  have out: "detect_sections U (bs @ [x]) = ?out @ ?new"
    by (rule detect_sections_snoc)
  have old: "first_seen U (bs @ [x]) s = first_seen U bs s \<and> (\<exists>i < length bs. first_seen U bs s = Some i)"
    if "s \<in> set ?out" for s
  proof -
    from that obtain i where i: "first_seen U bs s = Some i"
      by (auto simp: detect_sections_members)
    with first_seen_less [OF i] show ?thesis by (simp add: first_seen_snoc)
  qed
  have fresh: "first_seen U (bs @ [x]) s = Some (length bs) \<and> s \<in> set ?new"
    if "s \<in> set (detect_sections U (bs @ [x]))" and "s \<notin> set ?out" for s
  proof -
    from that have "s \<in> set ?new" by (simp add: out)
    moreover from that(2) have "first_seen U bs s = None"
      by (simp add: detect_sections_members)
    ultimately show ?thesis by (simp add: first_seen_snoc)
  qed
  show ?case
  proof (cases "a \<in> set ?out")
    case a: True
    show ?thesis
    proof (cases "b \<in> set ?out")
      case b: True
      from old [OF a] old [OF b] snoc.IH [OF a b] show ?thesis
        by (simp add: out precedes_append_both [OF a b] seen_before_def)
    next
      case b: False
      from old [OF a] fresh [OF snoc.prems(2) b] show ?thesis
        by (auto simp: out precedes_append_left [OF a b] seen_before_def)
    qed
  next
    case a: False
    show ?thesis
    proof (cases "b \<in> set ?out")
      case b: True
      from fresh [OF snoc.prems(1) a] old [OF b] show ?thesis
        by (auto simp: out precedes_append_right [OF a b] seen_before_def)
    next
      case b: False
      from fresh [OF snoc.prems(1) a] have fa: "first_seen U (bs @ [x]) a = Some (length bs)"
        and qa: "a \<notin> set ?out \<and> mentions U a x" by auto
      from fresh [OF snoc.prems(2) b] have fb: "first_seen U (bs @ [x]) b = Some (length bs)"
        and qb: "b \<notin> set ?out \<and> mentions U b x" by auto
      have "precedes a b ?new = precedes a b section_labels"
        using qa qb by (intro precedes_filter) simp_all
      then show ?thesis
        by (simp add: out precedes_append_none [OF a b] seen_before_def fa fb)
    qed
  qed
qed

text \<open>
  C5, as the claim states it: in the output, \<open>a\<close> is before \<open>b\<close> exactly when the first
  fragment with a keyword of \<open>a\<close> is no later than the first fragment with a keyword of
  \<open>b\<close>. In the one fragment \<open>Soup and Salad\<close> both soups and salads are first seen, so
  neither is later than the other, and soups is not before salads in the output.
\<close>

theorem detect_sections_order_counterexample:
  "ascii ''soups'' \<in> set (detect_sections ascii_ucd [test_block ''Soup and Salad''])
   \<and> ascii ''salads'' \<in> set (detect_sections ascii_ucd [test_block ''Soup and Salad''])
   \<and> first_seen ascii_ucd [test_block ''Soup and Salad''] (ascii ''soups'') = Some 0
   \<and> first_seen ascii_ucd [test_block ''Soup and Salad''] (ascii ''salads'') = Some 0
   \<and> \<not> precedes (ascii ''soups'') (ascii ''salads'')
         (detect_sections ascii_ucd [test_block ''Soup and Salad''])"
  by (simp add: test_block_def first_seen_def mentions_def section_eval char_eval)

text \<open>
  C5, amended: the output of \<open>detect_sections\<close> has no label twice, it holds exactly
  the labels of which a keyword occurs in some fragment, and \<open>a\<close> is before \<open>b\<close> in it
  exactly when \<open>a\<close> is first seen in an earlier fragment than \<open>b\<close>, or both are first
  seen in the same fragment and \<open>a\<close> is before \<open>b\<close> in the keyword table.
\<close>

theorem detect_sections_first_seen_order:
  "distinct (detect_sections U blocks)
   \<and> (\<forall>s. s \<in> set (detect_sections U blocks) \<longleftrightarrow> first_seen U blocks s \<noteq> None)
   \<and> (\<forall>a b. precedes a b (detect_sections U blocks) \<longleftrightarrow> seen_before U blocks a b)"
proof (intro conjI allI)
  show "distinct (detect_sections U blocks)"
    by (rule detect_sections_distinct)
  show "s \<in> set (detect_sections U blocks) \<longleftrightarrow> first_seen U blocks s \<noteq> None" for s
    by (rule detect_sections_members)
  show "precedes a b (detect_sections U blocks) \<longleftrightarrow> seen_before U blocks a b" for a b
  proof (cases "a \<in> set (detect_sections U blocks) \<and> b \<in> set (detect_sections U blocks)")
    case True
    then show ?thesis by (simp add: detect_sections_order)
  next
    case False
    then have "first_seen U blocks a = None \<or> first_seen U blocks b = None"
      by (simp add: detect_sections_members)
    then have "\<not> seen_before U blocks a b"
      by (auto simp: seen_before_def split: option.splits)
    moreover from False have "\<not> precedes a b (detect_sections U blocks)"
      using precedes_members by fastforce
    ultimately show ?thesis by simp
  qed
qed

theorem detect_sections_first_seen_order_witness:
  "distinct (detect_sections ascii_ucd [test_block ''Soup and Salad''])
   \<and> ascii ''salads'' \<in> set (detect_sections ascii_ucd [test_block ''Soup and Salad''])
   \<and> ascii ''soups'' \<in> set (detect_sections ascii_ucd [test_block ''Soup and Salad''])
   \<and> precedes (ascii ''salads'') (ascii ''soups'')
       (detect_sections ascii_ucd [test_block ''Soup and Salad''])
   \<and> seen_before ascii_ucd [test_block ''Soup and Salad''] (ascii ''salads'') (ascii ''soups'')"
  using detect_sections_first_seen_order [of ascii_ucd "[test_block ''Soup and Salad'']"]
  by (simp add: test_block_def seen_before_def first_seen_def mentions_def section_labels_def
        section_eval char_eval)

section \<open>Extraction returns\<close>

text \<open>
  Group 1 of every match of a price pattern is a string \<open>float\<close> reads, so
  \<open>extract_prices\<close>, \<open>extract_items\<close> and \<open>postprocess\<close> raise nothing: they return
  a result on every input.
\<close>

lemma star_match_split:
  "r \<in> set (star_match p s) \<Longrightarrow> \<exists>u. s = u @ r \<and> list_all p u"
proof (induction s)
  case Nil
  then show ?case by simp
next
  case (Cons c cs)
  show ?case
  proof (cases "r = c # cs")
    case True
    then show ?thesis by simp
  next
    case False
    with Cons.prems have "p c" and "r \<in> set (star_match p cs)"
      by (auto split: if_splits)
    with Cons.IH obtain u where "cs = u @ r" "list_all p u" by blast
    with \<open>p c\<close> show ?thesis by (intro exI [of _ "c # u"]) simp
  qed
qed

lemma rmatch_suffix: "r \<in> set (rmatch re s) \<Longrightarrow> \<exists>u. s = u @ r"
proof (induction re arbitrary: s r)
  case Eps
  then show ?case by simp
next
  case (Sym p)
  then show ?case by (cases s) (auto split: if_splits)
next
  case (Cat a b)
  from Cat.prems obtain m where "m \<in> set (rmatch a s)" "r \<in> set (rmatch b m)" by auto
  with Cat.IH obtain u v where "s = u @ m" "m = v @ r" by blast
  then show ?case by (intro exI [of _ "u @ v"]) simp
next
  case (Star p)
  with star_match_split show ?case by fastforce
next
  case (Opt a)
  then show ?case by auto
qed

lemma amount_split:
  assumes "r \<in> set (rmatch (amount U sep) s)"
  shows "\<exists>g. s = g @ r \<and> numeric U sep g"
proof -
  from assms obtain m where m: "m \<in> set (rmatch (Cat (Sym (isdigit U)) (Star (isdigit U))) s)"
    and r: "r \<in> set (rmatch (Opt (Cat (Sym sep) (Cat (Sym (isdigit U)) (Sym (isdigit U))))) m)"
    by (auto simp: amount_def)
  from m obtain d rest where s: "s = d # rest" and d: "isdigit U d"
    and "m \<in> set (star_match (isdigit U) rest)"
    by (cases s) (auto split: if_splits)
  with star_match_split obtain u where rest: "rest = u @ m" and u: "list_all (isdigit U) u"
    by blast
  let ?ds = "d # u"
  have ds: "?ds \<noteq> []" "list_all (isdigit U) ?ds" "s = ?ds @ m"
    using d u s rest by simp_all
  from r consider "r = m" | c d1 d2 where "m = [c, d1, d2] @ r" "sep c" "isdigit U d1" "isdigit U d2"
  proof (cases m)
    case Nil
    with r that(1) show ?thesis by simp
  next
    case (Cons c m1)
    show ?thesis
    proof (cases m1)
      case Nil
      with Cons r that(1) show ?thesis by (auto split: if_splits)
    next
      case (Cons d1 m2)
      show ?thesis
      proof (cases m2)
        case Nil
        with \<open>m = c # m1\<close> \<open>m1 = d1 # m2\<close> r that(1) show ?thesis by (auto split: if_splits)
      next
        case (Cons d2 m3)
        with \<open>m = c # m1\<close> \<open>m1 = d1 # m2\<close> r that show ?thesis
          by (auto split: if_splits)
      qed
    qed
  qed
  then show ?thesis
  proof cases
    case 1
    with ds show ?thesis unfolding numeric_def by blast
  next
    case 2
    with ds have "s = (?ds @ [c, d1, d2]) @ r" by simp
    moreover from 2 ds have "numeric U sep (?ds @ [c, d1, d2])"
      unfolding numeric_def by blast
    ultimately show ?thesis by blast
  qed
qed

lemma match_at_group1:
  assumes "match_at pat s = Some (a, b, c)" and "grp pat = amount U sep"
  shows "numeric U sep (take b (drop a s))"
proof -
  let ?ways = "concat (map (\<lambda>r1. concat (map (\<lambda>r2. map (\<lambda>r3. (r1, r2, r3)) (rmatch (post pat) r2))
                                          (rmatch (grp pat) r1)))
                       (rmatch (pre pat) s))"
  from assms(1) obtain r1 r2 r3 ws where ways: "?ways = (r1, r2, r3) # ws"
    and a: "a = length s - length r1" and b: "b = length r1 - length r2"
    unfolding match_at_def by (auto split: list.splits)
  then have "(r1, r2, r3) \<in> set ?ways" by simp
  then have r1: "r1 \<in> set (rmatch (pre pat) s)" and r2: "r2 \<in> set (rmatch (grp pat) r1)"
    by auto
  from rmatch_suffix [OF r1] obtain u where s: "s = u @ r1" by blast
  from amount_split r2 assms(2) obtain g where g: "r1 = g @ r2" "numeric U sep g"
    by metis
  from s g a b have "take b (drop a s) = g" by simp
  with g show ?thesis by simp
qed

lemma finditer_from_group1:
  assumes "m \<in> set (finditer_from pat pos s)" and "grp pat = amount U sep"
  shows "numeric U sep (group1 m)"
  using assms
proof (induction pat pos s rule: finditer_from.induct)
  case (1 pat pos s)
  show ?case
  proof (cases "match_at pat s")
    case None
    with "1.prems" have "s \<noteq> []" and "m \<in> set (finditer_from pat (pos + 1) (drop 1 s))"
      by (subst (asm) finditer_from.simps, simp split: if_splits)+
    with "1.IH"(1) [OF None] "1.prems"(2) show ?thesis by simp
  next
    case (Some abc)
    obtain a b c where abc: "abc = (a, b, c)" by (cases abc)
    from "1.prems"(1) Some abc
    have "m = \<lparr>m_start = pos, group0 = take (a + b + c) s, group1 = take b (drop a s)\<rparr>
        \<or> (s \<noteq> [] \<and> m \<in> set (finditer_from pat (pos + max 1 (a + b + c))
                                  (drop (max 1 (a + b + c)) s)))"
      by (subst (asm) finditer_from.simps) (simp split: if_splits)
    then show ?thesis
    proof
      assume "m = \<lparr>m_start = pos, group0 = take (a + b + c) s, group1 = take b (drop a s)\<rparr>"
      with match_at_group1 [of pat s a b c U sep] Some abc "1.prems"(2) show ?thesis by simp
    next
      assume "s \<noteq> [] \<and> m \<in> set (finditer_from pat (pos + max 1 (a + b + c))
                                  (drop (max 1 (a + b + c)) s))"
      with "1.IH"(2) [OF Some abc [symmetric] refl] "1.prems"(2) show ?thesis by simp
    qed
  qed
qed


lemma digits_value_Some:
  "list_all (isdigit U) ds \<Longrightarrow> \<exists>n. digits_value U acc ds = Some n"
  by (induction ds arbitrary: acc) (auto simp: isdigit_def)

lemma digit_no_point: "isdigit U c \<Longrightarrow> c \<noteq> 46 \<and> c \<noteq> 44"
  by (auto simp: isdigit_def decimal_def)

lemma digits_no_point:
  assumes "list_all (isdigit U) ds"
  shows "\<forall>c \<in> set ds. c \<noteq> 46 \<and> c \<noteq> 44"
  using assms by (auto simp: list_all_iff dest: digit_no_point)

lemma replace_comma_digits: "list_all (isdigit U) ds \<Longrightarrow> replace_comma ds = ds"
  using digits_no_point [of U ds] by (simp add: replace_comma_def map_idI)

lemma float_numeric:
  assumes "numeric U sep g" and "\<forall>c. sep c \<longrightarrow> c = 46 \<or> c = 44"
  shows "\<exists>v. float U (replace_comma g) = Inr v"
proof -
  from assms(1) obtain ds where ds: "ds \<noteq> []" "list_all (isdigit U) ds"
    and g: "g = ds \<or> (\<exists>c d1 d2. sep c \<and> isdigit U d1 \<and> isdigit U d2 \<and> g = ds @ [c, d1, d2])"
    unfolding numeric_def by blast
  from digits_value_Some [OF ds(2)] obtain n where n: "digits_value U 0 ds = Some n" by blast
  from digits_no_point [OF ds(2)] have no_point: "\<forall>c \<in> set ds. c \<noteq> 46" by blast
  from g show ?thesis
  proof
    assume whole: "g = ds"
    from no_point have split: "takeWhile (\<lambda>c. c \<noteq> 46) ds = ds"
      "dropWhile (\<lambda>c. c \<noteq> 46) ds = []"
      by simp_all
    show ?thesis
      by (simp add: float_def Let_def whole replace_comma_digits [OF ds(2)] split ds(1) n)
  next
    assume "\<exists>c d1 d2. sep c \<and> isdigit U d1 \<and> isdigit U d2 \<and> g = ds @ [c, d1, d2]"
    then obtain c d1 d2 where c: "sep c" and d: "isdigit U d1" "isdigit U d2"
      and g': "g = ds @ [c, d1, d2]" by blast
    from d have frac: "list_all (isdigit U) [d1, d2]" by simp
    from digits_value_Some [OF frac] obtain f where f: "digits_value U 0 [d1, d2] = Some f"
      by blast
    from c assms(2) have "replace_comma [c] = [46]"
      by (auto simp: replace_comma_def)
    with replace_comma_digits [OF ds(2)] replace_comma_digits [OF frac]
    have replaced: "replace_comma g = ds @ 46 # [d1, d2]"
      by (simp add: g' replace_comma_def)
    from no_point have split: "takeWhile (\<lambda>c. c \<noteq> 46) (ds @ 46 # [d1, d2]) = ds"
      "dropWhile (\<lambda>c. c \<noteq> 46) (ds @ 46 # [d1, d2]) = 46 # [d1, d2]"
      by (simp_all add: takeWhile_append2 dropWhile_append2)
    show ?thesis
      by (simp add: float_def Let_def replaced split ds(1) n f del: digits_value.simps)
  qed
qed

lemma price_patterns_amount:
  assumes "pat \<in> set (price_patterns U)"
  shows "\<exists>sep. grp pat = amount U sep \<and> (\<forall>c. sep c \<longrightarrow> c = 46 \<or> c = 44)"
  using assms by (auto simp: price_patterns_def)

lemma price_of_match_returns:
  assumes "pat \<in> set (price_patterns U)" and "m \<in> set (finditer pat s)"
  shows "\<exists>p. price_of_match U m = Inr p"
proof -
  from price_patterns_amount [OF assms(1)] obtain sep where sep: "grp pat = amount U sep"
    "\<forall>c. sep c \<longrightarrow> c = 46 \<or> c = 44" by blast
  from assms(2) finditer_from_group1 [OF _ sep(1)] have "numeric U sep (group1 m)"
    by (simp add: finditer_def)
  from float_numeric [OF this sep(2)] show ?thesis
    by (auto simp: price_of_match_def)
qed

lemma append_matches_returns:
  assumes "\<forall>m \<in> set ms. \<exists>p. price_of_match U m = Inr p"
  shows "\<exists>ps. append_matches U acc ms = Inr ps"
  using assms by (induction ms arbitrary: acc) auto

lemma scan_patterns_returns:
  assumes "set pats \<subseteq> set (price_patterns U)"
  shows "\<exists>ps. scan_patterns U s acc pats = Inr ps"
  using assms
proof (induction pats arbitrary: acc)
  case Nil
  then show ?case by simp
next
  case (Cons pat pats)
  then have "\<forall>m \<in> set (finditer pat s). \<exists>p. price_of_match U m = Inr p"
    using price_of_match_returns by auto
  from append_matches_returns [OF this] obtain ps where "append_matches U acc (finditer pat s) = Inr ps"
    by blast
  with Cons show ?case by simp
qed

lemma extract_prices_returns: "\<exists>ps. extract_prices U s = Inr ps"
  unfolding extract_prices_def by (rule scan_patterns_returns) simp

lemma find_price_returns: "\<exists>p. find_price U bs j stop = Inr p"
proof (induction U bs j stop rule: find_price.induct)
  case (1 U bs j stop)
  from extract_prices_returns obtain ps where ps: "extract_prices U (block_text (bs ! j)) = Inr ps"
    by blast
  show ?case
  proof (cases "j < stop")
    case False
    then show ?thesis by (subst find_price.simps) simp
  next
    case True
    show ?thesis
    proof (cases ps)
      case Nil
      with "1.IH" [OF True ps] True ps show ?thesis
        by (subst find_price.simps) simp
    next
      case (Cons q qs)
      with True ps show ?thesis by (subst find_price.simps) simp
    qed
  qed
qed

lemma items_loop_returns: "\<exists>its. items_loop U bs i cur acc rest = Inr its"
proof (induction rest arbitrary: i cur acc)
  case Nil
  show ?case by simp
next
  case (Cons b rest)
  from find_price_returns obtain p where "find_price U bs i (min (i + 3) (length bs)) = Inr p"
    by blast
  with Cons show ?case by (simp add: Let_def)
qed

lemma extract_items_returns: "\<exists>its. extract_items U blocks secs = Inr its"
  unfolding extract_items_def by (rule items_loop_returns)

lemma postprocess_returns: "\<exists>r. postprocess U blocks = Inr r"
proof -
  from extract_prices_returns obtain ps where
    "extract_prices U (join [10] (map block_text blocks)) = Inr ps" by blast
  moreover from extract_items_returns obtain its where
    "extract_items U blocks (detect_sections U blocks) = Inr its" by blast
  ultimately show ?thesis by (simp add: postprocess_def Let_def)
qed


end
